theory Spec2Isabelle
  imports Main "HOL-Library.AList"
begin

section \<open>Tic-tac-toe: the state model, the outcome classifier and the minimax scorer\<close>

text \<open>
  A shallow embedding of \<^verbatim>\<open>tic_tac_toe.py\<close>. Python dictionaries are association
  lists in insertion order: \<open>AList.update\<close> overwrites the value of a key that is
  present, in place, and appends a new key at the end, as assignment to a dict entry
  does. Python exceptions are values of \<open>py_error\<close>, carried in the left summand.
\<close>

subsection \<open>Values, errors and the two classes\<close>

text \<open>
  The values of \<^verbatim>\<open>cells_owned\<close> are either the integer placeholder of the
  initial board or the string that names a player.
\<close>

datatype pyval = PInt int | PStr string

datatype py_error = ValueError | KeyError

record TicTacToeState =
  cells_owned :: "(int \<times> pyval) list"
  cells_unowned :: "int list"
  current_player :: string

record TicTacToeGame =
  x_first :: bool
  current_state :: TicTacToeState

definition winning_combo :: "int list list" where
  "winning_combo = [[1, 2, 3], [4, 5, 6], [7, 8, 9],
                    [1, 4, 7], [2, 5, 8], [3, 6, 9],
                    [1, 5, 9], [3, 5, 7]]"

subsection \<open>Built-ins\<close>

text \<open>\<^verbatim>\<open>max\<close> of a sequence: raises \<^verbatim>\<open>ValueError\<close> on the empty one.\<close>

fun py_max :: "int list \<Rightarrow> py_error + int" where
  "py_max [] = Inl ValueError"
| "py_max (x # xs) = Inr (fold max xs x)"

text \<open>\<^verbatim>\<open>d[key]\<close>: raises \<^verbatim>\<open>KeyError\<close> on a missing key.\<close>

definition py_getitem :: "('k \<times> 'v) list \<Rightarrow> 'k \<Rightarrow> py_error + 'v" where
  "py_getitem d key = (case map_of d key of None \<Rightarrow> Inl KeyError | Some v \<Rightarrow> Inr v)"

text \<open>
  The results of a loop body that may raise, in the order of the iterations: the first
  error stops the loop, otherwise the loop has appended every value.
\<close>

fun collect :: "(py_error + 'a) list \<Rightarrow> py_error + 'a list" where
  "collect [] = Inr []"
| "collect (r # rs) =
     (case r of
        Inl e \<Rightarrow> Inl e
      | Inr y \<Rightarrow> (case collect rs of Inl e \<Rightarrow> Inl e | Inr ys \<Rightarrow> Inr (y # ys)))"

subsection \<open>\<^verbatim>\<open>copy_dict\<close>\<close>

definition copy_dict :: "('k \<times> 'v) list \<Rightarrow> ('k \<times> 'v) list" where
  "copy_dict d =
     foldl (\<lambda>new_dict key.
              case map_of d key of
                Some v \<Rightarrow> AList.update key v new_dict
              | None \<Rightarrow> new_dict)
       [] (map fst d)"

subsection \<open>\<^verbatim>\<open>TicTacToeGame\<close>\<close>

definition TicTacToeGame_init :: "bool \<Rightarrow> TicTacToeGame" where
  "TicTacToeGame_init xf =
     (let player = (if xf then ''X'' else ''O'') in
      \<lparr> x_first = xf,
        current_state =
          \<lparr> cells_owned = [(1, PInt 1), (2, PInt 2), (3, PInt 3),
                           (4, PInt 4), (5, PInt 5), (6, PInt 6),
                           (7, PInt 7), (8, PInt 8), (9, PInt 9)],
            cells_unowned = [1, 2, 3, 4, 5, 6, 7, 8, 9],
            current_player = player \<rparr> \<rparr>)"

text \<open>
  The first loop of \<^verbatim>\<open>is_over\<close>: every cell whose value is a key of
  \<^verbatim>\<open>player_to_cells\<close> is appended to the list of that key.
\<close>

definition player_to_cells_of :: "(int \<times> pyval) list \<Rightarrow> (string \<times> int list) list" where
  "player_to_cells_of owned =
     foldl (\<lambda>player_to_cells cell.
              case map_of owned cell of
                Some (PStr p) \<Rightarrow>
                  (case map_of player_to_cells p of
                     Some cells \<Rightarrow> AList.update p (cells @ [cell]) player_to_cells
                   | None \<Rightarrow> player_to_cells)
              | _ \<Rightarrow> player_to_cells)
       [(''X'', []), (''O'', [])] (map fst owned)"

definition is_over :: "TicTacToeGame \<Rightarrow> bool" where
  "is_over self =
     (if length (cells_unowned (current_state self)) = 0 then True
      else
        (let player_to_cells = player_to_cells_of (cells_owned (current_state self)) in
         list_ex (\<lambda>(player, cells).
                    list_ex (\<lambda>combo. list_all (\<lambda>cell. cell \<in> set cells) combo)
                      winning_combo)
           player_to_cells))"

definition is_winner :: "TicTacToeGame \<Rightarrow> string \<Rightarrow> bool" where
  "is_winner self player =
     (let player_cells = cells_owned (current_state self);
          owned = filter (\<lambda>cell. map_of player_cells cell = Some (PStr player))
                    (map fst player_cells)
      in list_ex (\<lambda>combo. list_all (\<lambda>cell. cell \<in> set owned) combo) winning_combo)"

definition extract_winner :: "TicTacToeState \<Rightarrow> string" where
  "extract_winner state =
     (let tictactoe = (TicTacToeGame_init True)\<lparr>current_state := state\<rparr> in
      if is_winner tictactoe ''O'' then ''O''
      else if is_winner tictactoe ''X'' then ''X''
      else ''No one'')"

subsection \<open>\<^verbatim>\<open>TicTacToeState\<close>\<close>

definition get_possible_moves :: "TicTacToeState \<Rightarrow> int list" where
  "get_possible_moves self =
     (let game_check = (TicTacToeGame_init True)\<lparr>current_state := self\<rparr> in
      if is_over game_check then [] else cells_unowned self)"

definition is_valid_move :: "TicTacToeState \<Rightarrow> pyval \<Rightarrow> bool" where
  "is_valid_move self move =
     (case move of
        PInt i \<Rightarrow> i \<in> set (get_possible_moves self)
      | PStr _ \<Rightarrow> False)"

definition make_move :: "TicTacToeState \<Rightarrow> int \<Rightarrow> TicTacToeState" where
  "make_move self move =
     (let new_cells_unowned = filter (\<lambda>cell. cell \<noteq> move) (cells_unowned self);
          new_cells_owned =
            AList.update move (PStr (current_player self)) (copy_dict (cells_owned self));
          new_player = (if current_player self = ''X'' then ''O'' else ''X'')
      in \<lparr> cells_owned = new_cells_owned,
           cells_unowned = new_cells_unowned,
           current_player = new_player \<rparr>)"

subsection \<open>The minimax search\<close>

function score_state_rec :: "TicTacToeState \<Rightarrow> py_error + int" where
  "score_state_rec state =
     (let player = current_player state;
          opponent = (if player = ''O'' then ''X'' else ''O'')
      in if get_possible_moves state = [] then
           (let winner = extract_winner state in
            Inr (if winner = player then 1 else if winner = opponent then - 1 else 0))
         else
           (let next_moves = get_possible_moves state in
            case collect (map (\<lambda>next_move.
                                 case score_state_rec (make_move state next_move) of
                                   Inl e \<Rightarrow> Inl e
                                 | Inr v \<Rightarrow> Inr (- 1 * v))
                            next_moves) of
              Inl e \<Rightarrow> Inl e
            | Inr scores \<Rightarrow> py_max scores))"
  by pat_completeness auto
termination
  by (relation "measure (\<lambda>s. length (cells_unowned s))")
     (auto simp: get_possible_moves_def make_move_def Let_def
           split: if_splits intro!: length_filter_less)

declare score_state_rec.simps [simp del]

text \<open>
  The loop of \<^verbatim>\<open>get_best_moves_rec\<close> over the moves, threading the dictionary
  \<^verbatim>\<open>score_to_move\<close>. The source evaluates \<^verbatim>\<open>score_state_rec(next_state)\<close> once
  in the test and once more in the branch taken; the scorer is pure, so the model
  evaluates it once.
\<close>

fun group_moves ::
  "TicTacToeState \<Rightarrow> int list \<Rightarrow> (int \<times> int list) list \<Rightarrow> py_error + (int \<times> int list) list" where
  "group_moves state [] score_to_move = Inr score_to_move"
| "group_moves state (move # moves) score_to_move =
     (let next_state = make_move state move in
      case score_state_rec next_state of
        Inl e \<Rightarrow> Inl e
      | Inr v \<Rightarrow>
          (case map_of score_to_move (- 1 * v) of
             None \<Rightarrow>
               group_moves state moves (AList.update (- 1 * v) [move] score_to_move)
           | Some ms \<Rightarrow>
               group_moves state moves (AList.update (- 1 * v) (ms @ [move]) score_to_move)))"

definition get_best_moves_rec :: "TicTacToeState \<Rightarrow> py_error + int list" where
  "get_best_moves_rec state =
     (let moves = get_possible_moves state in
      case group_moves state moves [] of
        Inl e \<Rightarrow> Inl e
      | Inr score_to_move \<Rightarrow>
          (case py_max (map fst score_to_move) of
             Inl e \<Rightarrow> Inl e
           | Inr best \<Rightarrow> py_getitem score_to_move best))"

text \<open>
  \<^verbatim>\<open>recursive_minimax\<close> draws an index with \<^verbatim>\<open>random.randint(0, len(best_moves) - 1)\<close>:
  the model returns the set of its possible outcomes. On an empty list the range of
  \<^verbatim>\<open>randint\<close> is empty and it raises \<^verbatim>\<open>ValueError\<close>.
\<close>

definition recursive_minimax :: "TicTacToeGame \<Rightarrow> (py_error + int) set" where
  "recursive_minimax game =
     (let state = current_state game in
      case get_best_moves_rec state of
        Inl e \<Rightarrow> {Inl e}
      | Inr best_moves \<Rightarrow>
          (if best_moves = [] then {Inl ValueError} else Inr ` set best_moves))"

subsection \<open>Reachable states\<close>

text \<open>
  The states of a game: the initial state of \<^verbatim>\<open>TicTacToeGame(x_first)\<close>, and the result
  of \<^verbatim>\<open>make_move\<close> on a move that \<^verbatim>\<open>is_valid_move\<close> accepts, as in the driver loop.
\<close>

inductive reachable :: "TicTacToeState \<Rightarrow> bool" where
  reachable_init: "reachable (current_state (TicTacToeGame_init xf))"
| reachable_move: "reachable s \<Longrightarrow> is_valid_move s (PInt m) \<Longrightarrow> reachable (make_move s m)"

subsection \<open>Notions used in the statements\<close>

text \<open>
  The throwaway game object that \<^verbatim>\<open>get_possible_moves\<close> and \<^verbatim>\<open>extract_winner\<close> build
  around a state.
\<close>

definition game_view :: "TicTacToeState \<Rightarrow> TicTacToeGame" where
  "game_view state = (TicTacToeGame_init True)\<lparr>current_state := state\<rparr>"

text \<open>The integer that \<^verbatim>\<open>score_state_rec\<close> returns (it never raises, see below).\<close>

definition score_val :: "TicTacToeState \<Rightarrow> int" where
  "score_val s = (case score_state_rec s of Inr v \<Rightarrow> v | Inl e \<Rightarrow> 0)"

text \<open>The base case of \<^verbatim>\<open>score_state_rec\<close>.\<close>

definition terminal_score :: "TicTacToeState \<Rightarrow> int" where
  "terminal_score s =
     (let player = current_player s;
          opponent = (if player = ''O'' then ''X'' else ''O'');
          winner = extract_winner s
      in if winner = player then 1 else if winner = opponent then - 1 else 0)"

text \<open>The cells that a dictionary gives to a player, in the order of its keys.\<close>

definition owned_by :: "(int \<times> pyval) list \<Rightarrow> string \<Rightarrow> int list" where
  "owned_by owned p = filter (\<lambda>cell. map_of owned cell = Some (PStr p)) (map fst owned)"

definition owned_cells :: "TicTacToeState \<Rightarrow> int set" where
  "owned_cells s = set (owned_by (cells_owned s) ''X'') \<union> set (owned_by (cells_owned s) ''O'')"

definition has_line :: "(int \<times> pyval) list \<Rightarrow> string \<Rightarrow> bool" where
  "has_line owned p =
     list_ex (\<lambda>combo. list_all (\<lambda>cell. map_of owned cell = Some (PStr p)) combo) winning_combo"

text \<open>
  The scenario of the specification: cells 1 and 2 belong to the player to move, cells 4
  and 5 to the other player, and cells 3, 6, 7, 8 and 9 are free.
\<close>

definition scenario :: "string \<Rightarrow> string \<Rightarrow> TicTacToeState" where
  "scenario a b =
     \<lparr> cells_owned = [(1, PStr a), (2, PStr a), (3, PInt 3),
                      (4, PStr b), (5, PStr b), (6, PInt 6),
                      (7, PInt 7), (8, PInt 8), (9, PInt 9)],
       cells_unowned = [3, 6, 7, 8, 9],
       current_player = a \<rparr>"

text \<open>
  The shape of the states of a game: the dictionary has the keys 1 to 9 in this order,
  a cell holds its own number or the name of a player, the unowned cells are the cells
  that hold their number, in the order 1 to 9, and the player to move is \<open>X\<close> or
  \<open>O\<close>.
\<close>

definition cell_ids :: "int list" where
  "cell_ids = [1, 2, 3, 4, 5, 6, 7, 8, 9]"

definition well_formed :: "TicTacToeState \<Rightarrow> bool" where
  "well_formed s =
     (map fst (cells_owned s) = cell_ids \<and>
      list_all (\<lambda>c. map_of (cells_owned s) c = Some (PInt c) \<or>
                     map_of (cells_owned s) c = Some (PStr ''X'') \<or>
                     map_of (cells_owned s) c = Some (PStr ''O'')) cell_ids \<and>
      cells_unowned s = filter (\<lambda>c. map_of (cells_owned s) c = Some (PInt c)) cell_ids \<and>
      (current_player s = ''X'' \<or> current_player s = ''O''))"

section \<open>Properties\<close>

subsection \<open>Dictionaries\<close>

lemma update_fresh: "k \<notin> fst ` set al \<Longrightarrow> AList.update k v al = al @ [(k, v)]"
  by (induction al) auto

lemma copy_dict_loop:
  "distinct (map fst (pre @ post)) \<Longrightarrow> d = pre @ post \<Longrightarrow>
   foldl (\<lambda>new_dict key. case map_of d key of Some v \<Rightarrow> AList.update key v new_dict | None \<Rightarrow> new_dict)
     pre (map fst post) = pre @ post"
proof (induction post arbitrary: pre)
  case Nil
  then show ?case by simp
next
  case (Cons kv post)
  obtain k v where kv: "kv = (k, v)" by (cases kv)
  from Cons.prems have notin: "k \<notin> fst ` set pre" and d: "d = (pre @ [(k, v)]) @ post"
    and dist: "distinct (map fst ((pre @ [(k, v)]) @ post))"
    by (auto simp: kv)
  have "map_of pre k = None"
    using notin by (simp add: map_of_eq_None_iff)
  then have look: "map_of d k = Some v"
    using Cons.prems by (simp add: kv map_add_def)
  show ?case
    using Cons.IH[OF dist d] by (simp add: kv look update_fresh[OF notin])
qed

lemma copy_dict_distinct: "distinct (map fst d) \<Longrightarrow> copy_dict d = d"
  using copy_dict_loop[of "[]" d d] by (simp add: copy_dict_def)

lemma map_of_copy_loop:
  "set ks \<subseteq> fst ` set d \<Longrightarrow>
   map_of (foldl (\<lambda>new_dict key. case map_of d key of Some v \<Rightarrow> AList.update key v new_dict | None \<Rightarrow> new_dict)
             acc ks) k
   = (if k \<in> set ks then map_of d k else map_of acc k)"
proof (induction ks arbitrary: acc)
  case Nil
  then show ?case by simp
next
  case (Cons a ks)
  from Cons.prems obtain v where v: "map_of d a = Some v"
    by (cases "map_of d a") (auto simp: map_of_eq_None_iff)
  from Cons.prems have sub: "set ks \<subseteq> fst ` set d" by simp
  show ?case
    by (simp add: v Cons.IH[OF sub] update_conv')
qed

lemma map_of_copy_dict: "map_of (copy_dict d) = map_of d"
proof
  fix k
  show "map_of (copy_dict d) k = map_of d k"
    using map_of_copy_loop[of "map fst d" d "[]" k]
    by (auto simp: copy_dict_def map_of_eq_None_iff[THEN iffD2])
qed

subsection \<open>The outcome classifier\<close>

lemma player_to_cells_loop:
  "foldl (\<lambda>player_to_cells cell.
              case map_of owned cell of
                Some (PStr p) \<Rightarrow>
                  (case map_of player_to_cells p of
                     Some cells \<Rightarrow> AList.update p (cells @ [cell]) player_to_cells
                   | None \<Rightarrow> player_to_cells)
              | _ \<Rightarrow> player_to_cells)
       [(''X'', xs), (''O'', os)] ks
   = [(''X'', xs @ filter (\<lambda>cell. map_of owned cell = Some (PStr ''X'')) ks),
      (''O'', os @ filter (\<lambda>cell. map_of owned cell = Some (PStr ''O'')) ks)]"
proof (induction ks arbitrary: xs os)
  case Nil
  then show ?case by simp
next
  case (Cons k ks)
  show ?case
  proof (cases "map_of owned k")
    case None
    then show ?thesis using Cons.IH by simp
  next
    case (Some v)
    show ?thesis
    proof (cases v)
      case (PInt i)
      then show ?thesis using Some Cons.IH by simp
    next
      case (PStr p)
      consider "p = ''X''" | "p = ''O''" | "p \<noteq> ''X''" "p \<noteq> ''O''" by blast
      then show ?thesis
        by cases (simp_all add: Some PStr Cons.IH)
    qed
  qed
qed

lemma player_to_cells_of_eq:
  "player_to_cells_of owned = [(''X'', owned_by owned ''X''), (''O'', owned_by owned ''O'')]"
  unfolding player_to_cells_of_def owned_by_def
  using player_to_cells_loop[of owned "[]" "[]" "map fst owned"] by simp

lemma in_owned_by: "cell \<in> set (owned_by owned p) \<longleftrightarrow> map_of owned cell = Some (PStr p)"
  by (auto simp: owned_by_def dest: map_of_SomeD intro: rev_image_eqI)

lemma is_winner_iff: "is_winner g p \<longleftrightarrow> has_line (cells_owned (current_state g)) p"
  unfolding is_winner_def has_line_def Let_def
  using in_owned_by[unfolded owned_by_def] by simp

lemma is_over_iff:
  "is_over g \<longleftrightarrow>
     cells_unowned (current_state g) = [] \<or>
     has_line (cells_owned (current_state g)) ''X'' \<or>
     has_line (cells_owned (current_state g)) ''O''"
  unfolding has_line_def is_over_def Let_def player_to_cells_of_eq
  by (simp add: in_owned_by)

lemma get_possible_moves_eq:
  "get_possible_moves s =
     (if cells_unowned s = [] \<or> has_line (cells_owned s) ''X'' \<or> has_line (cells_owned s) ''O''
      then [] else cells_unowned s)"
  by (simp add: get_possible_moves_def is_over_iff)

lemma extract_winner_eq:
  "extract_winner s =
     (if has_line (cells_owned s) ''O'' then ''O''
      else if has_line (cells_owned s) ''X'' then ''X'' else ''No one'')"
  by (simp add: extract_winner_def is_winner_iff)

subsection \<open>The scorer never raises and satisfies the negamax equation\<close>

lemma collect_all_Inr: "collect (map (\<lambda>x. Inr (f x)) xs) = Inr (map f xs)"
  by (induction xs) auto

lemma py_max_nonempty:
  assumes "xs \<noteq> []"
  shows "py_max xs = Inr (Max (set xs))"
proof (cases xs)
  case Nil
  with assms show ?thesis by simp
next
  case (Cons a list)
  show ?thesis using Max.set_eq_fold[of a list] by (simp add: Cons)
qed

lemma score_unfold:
  "get_possible_moves s \<noteq> [] \<Longrightarrow>
   score_state_rec s =
     (case collect (map (\<lambda>next_move.
                          case score_state_rec (make_move s next_move) of
                            Inl e \<Rightarrow> Inl e
                          | Inr v \<Rightarrow> Inr (- 1 * v))
                     (get_possible_moves s)) of
        Inl e \<Rightarrow> Inl e
      | Inr scores \<Rightarrow> py_max scores)"
  by (subst score_state_rec.simps) (simp only: Let_def if_False)

lemma score_terminal:
  "get_possible_moves s = [] \<Longrightarrow> score_state_rec s = Inr (terminal_score s)"
  by (subst score_state_rec.simps) (simp add: terminal_score_def Let_def)

lemma score_total: "\<exists>v. score_state_rec s = Inr v"
proof (induction s rule: score_state_rec.induct)
  case (1 state)
  show ?case
  proof (cases "get_possible_moves state = []")
    case True
    then show ?thesis using score_terminal by blast
  next
    case False
    have ih: "\<And>m. m \<in> set (get_possible_moves state) \<Longrightarrow>
                 \<exists>v. score_state_rec (make_move state m) = Inr v"
      using "1.IH"[OF refl refl False refl] by blast
    have "\<And>m. m \<in> set (get_possible_moves state) \<Longrightarrow>
             score_state_rec (make_move state m) = Inr (score_val (make_move state m))"
      using ih by (fastforce simp: score_val_def)
    then have "map (\<lambda>next_move. case score_state_rec (make_move state next_move) of
                 Inl e \<Rightarrow> Inl e | Inr v \<Rightarrow> Inr (- 1 * v)) (get_possible_moves state)
          = map (\<lambda>m. Inr (- score_val (make_move state m))) (get_possible_moves state)"
      by simp
    then show ?thesis
      using False by (simp only: score_unfold[OF False] collect_all_Inr) (simp add: py_max_nonempty)
  qed
qed

lemma score_state_rec_val: "score_state_rec s = Inr (score_val s)"
  using score_total[of s] by (auto simp: score_val_def)

lemma score_val_terminal: "get_possible_moves s = [] \<Longrightarrow> score_val s = terminal_score s"
  using score_terminal[of s] by (simp add: score_val_def)

lemma score_val_step:
  assumes "get_possible_moves s \<noteq> []"
  shows "score_val s = Max ((\<lambda>m. - score_val (make_move s m)) ` set (get_possible_moves s))"
proof -
  have "map (\<lambda>next_move. case score_state_rec (make_move s next_move) of
               Inl e \<Rightarrow> Inl e | Inr v \<Rightarrow> Inr (- 1 * v)) (get_possible_moves s)
        = map (\<lambda>m. Inr (- score_val (make_move s m))) (get_possible_moves s)"
    by (simp add: score_state_rec_val)
  then have "score_state_rec s = Inr (Max ((\<lambda>m. - score_val (make_move s m)) ` set (get_possible_moves s)))"
    using assms by (simp only: score_unfold[OF assms] collect_all_Inr) (simp add: py_max_nonempty)
  then show ?thesis by (simp add: score_val_def)
qed

lemma terminal_score_range: "terminal_score s \<in> {- 1, 0, 1}"
  by (simp add: terminal_score_def Let_def)

lemma score_val_range: "score_val s \<in> {- 1, 0, 1}"
proof (induction s rule: score_state_rec.induct)
  case (1 state)
  show ?case
  proof (cases "get_possible_moves state = []")
    case True
    then show ?thesis using terminal_score_range[of state] by (simp add: score_val_terminal)
  next
    case False
    let ?S = "(\<lambda>m. - score_val (make_move state m)) ` set (get_possible_moves state)"
    have ih: "\<And>m. m \<in> set (get_possible_moves state) \<Longrightarrow> score_val (make_move state m) \<in> {- 1, 0, 1}"
      using "1.IH"[OF refl refl False refl] by blast
    have sub: "?S \<subseteq> {- 1, 0, 1}"
    proof
      fix x assume "x \<in> ?S"
      then obtain m where m: "m \<in> set (get_possible_moves state)"
        and x: "x = - score_val (make_move state m)" by blast
      from ih[OF m] show "x \<in> {- 1, 0, 1}" unfolding x by fastforce
    qed
    have "finite ?S" "?S \<noteq> {}" using False by auto
    then have "Max ?S \<in> ?S" by (rule Max_in)
    with sub show ?thesis unfolding score_val_step[OF False] by blast
  qed
qed

subsection \<open>Evaluation on concrete states\<close>

lemmas state_eval = get_possible_moves_eq extract_winner_eq has_line_def winning_combo_def
  make_move_def copy_dict_def terminal_score_def scenario_def TicTacToeGame_init_def Let_def

lemma scenario_moves: "get_possible_moves (scenario ''X'' ''O'') = [3, 6, 7, 8, 9]"
  by (simp add: state_eval)

lemma scenario_after_3:
  "get_possible_moves (make_move (scenario ''X'' ''O'') 3) = []"
  "current_player (make_move (scenario ''X'' ''O'') 3) = ''O''"
  "terminal_score (make_move (scenario ''X'' ''O'') 3) = - 1"
  by (simp_all add: state_eval)

lemma scenario_after_7:
  "get_possible_moves (make_move (scenario ''X'' ''O'') 7) = [3, 6, 8, 9]"
  "get_possible_moves (make_move (make_move (scenario ''X'' ''O'') 7) 6) = []"
  "terminal_score (make_move (make_move (scenario ''X'' ''O'') 7) 6) = - 1"
  by (simp_all add: state_eval)

lemma score_val_ge_child:
  assumes "m \<in> set (get_possible_moves s)"
  shows "- score_val (make_move s m) \<le> score_val s"
proof -
  have ne: "get_possible_moves s \<noteq> []" using assms by auto
  show ?thesis unfolding score_val_step[OF ne] using assms by (intro Max_ge) auto
qed

lemma score_val_le_1: "score_val s \<le> 1"
  using score_val_range[of s] by auto

lemma score_val_win:
  assumes "m \<in> set (get_possible_moves s)" and "score_val (make_move s m) = - 1"
  shows "score_val s = 1"
  using score_val_ge_child[OF assms(1)] score_val_le_1[of s] assms(2) by simp

lemma scenario_child_3: "score_val (make_move (scenario ''X'' ''O'') 3) = - 1"
  by (simp add: score_val_terminal scenario_after_3)

lemma scenario_score: "score_val (scenario ''X'' ''O'') = 1"
  by (rule score_val_win[of 3]) (simp_all add: scenario_moves scenario_child_3)

lemma scenario_child_7: "score_val (make_move (scenario ''X'' ''O'') 7) = 1"
  by (rule score_val_win[of 6]) (simp_all add: scenario_after_7 score_val_terminal)

text \<open>
  Claim C1. The scorer never raises, and its result satisfies the negamax definition.
  On a state with legal moves the score is the maximum, over the legal moves, of the
  negated score of the state that the move leads to. On a state without legal moves whose
  player to move is \<open>X\<close> or \<open>O\<close>, the score is \<open>1\<close> if the winner that
  \<^verbatim>\<open>extract_winner\<close> names is the player to move, \<open>0\<close> if it names no one (a tie)
  and \<open>- 1\<close> otherwise, that is if it names the opponent; the winner is \<open>O\<close> if
  \<open>O\<close> owns a winning line, else \<open>X\<close> if \<open>X\<close> owns one, else no one.
\<close>

theorem negamax_definition:
  "score_state_rec s = Inr (score_val s) \<and>
   (get_possible_moves s \<noteq> [] \<longrightarrow>
      score_val s = Max ((\<lambda>m. - score_val (make_move s m)) ` set (get_possible_moves s))) \<and>
   (get_possible_moves s = [] \<and> current_player s \<in> {''X'', ''O''} \<longrightarrow>
      score_val s = (if extract_winner s = current_player s then 1
                     else if extract_winner s = ''No one'' then 0 else - 1) \<and>
      extract_winner s =
        (if is_winner (game_view s) ''O'' then ''O''
         else if is_winner (game_view s) ''X'' then ''X'' else ''No one''))"
proof (intro conjI impI)
  show "score_state_rec s = Inr (score_val s)" by (rule score_state_rec_val)
next
  assume "get_possible_moves s \<noteq> []"
  then show "score_val s = Max ((\<lambda>m. - score_val (make_move s m)) ` set (get_possible_moves s))"
    by (rule score_val_step)
next
  assume a: "get_possible_moves s = [] \<and> current_player s \<in> {''X'', ''O''}"
  then have "score_val s = terminal_score s" by (simp add: score_val_terminal)
  also have "\<dots> = (if extract_winner s = current_player s then 1
                     else if extract_winner s = ''No one'' then 0 else - 1)"
    using a by (auto simp: terminal_score_def Let_def extract_winner_eq)
  finally show "score_val s = (if extract_winner s = current_player s then 1
                     else if extract_winner s = ''No one'' then 0 else - 1)" .
next
  show "extract_winner s =
        (if is_winner (game_view s) ''O'' then ''O''
         else if is_winner (game_view s) ''X'' then ''X'' else ''No one'')"
    by (simp add: extract_winner_def game_view_def)
qed

theorem negamax_definition_witness:
  "get_possible_moves (scenario ''X'' ''O'') \<noteq> [] \<and>
   score_val (scenario ''X'' ''O'') =
     Max ((\<lambda>m. - score_val (make_move (scenario ''X'' ''O'') m)) ` set (get_possible_moves (scenario ''X'' ''O''))) \<and>
   get_possible_moves (make_move (scenario ''X'' ''O'') 3) = [] \<and>
   current_player (make_move (scenario ''X'' ''O'') 3) \<in> {''X'', ''O''} \<and>
   extract_winner (make_move (scenario ''X'' ''O'') 3) = ''X'' \<and>
   score_state_rec (make_move (scenario ''X'' ''O'') 3) = Inr (- 1)"
proof -
  have ne: "get_possible_moves (scenario ''X'' ''O'') \<noteq> []"
    by (simp add: scenario_moves)
  have step: "score_val (scenario ''X'' ''O'') =
     Max ((\<lambda>m. - score_val (make_move (scenario ''X'' ''O'') m)) ` set (get_possible_moves (scenario ''X'' ''O'')))"
    using negamax_definition[of "scenario ''X'' ''O''"] ne by blast
  have fin: "get_possible_moves (make_move (scenario ''X'' ''O'') 3) = []"
    "current_player (make_move (scenario ''X'' ''O'') 3) \<in> {''X'', ''O''}"
    by (simp_all add: scenario_after_3)
  have win: "extract_winner (make_move (scenario ''X'' ''O'') 3) = ''X''"
    by (simp add: state_eval)
  have "score_val (make_move (scenario ''X'' ''O'') 3) = - 1"
    using negamax_definition[of "make_move (scenario ''X'' ''O'') 3"] fin
    by (simp add: win scenario_after_3)
  then have "score_state_rec (make_move (scenario ''X'' ''O'') 3) = Inr (- 1)"
    using negamax_definition[of "make_move (scenario ''X'' ''O'') 3"] by simp
  with ne step fin win show ?thesis by blast
qed

lemma scenario_reachable: "reachable (scenario ''X'' ''O'')"
proof -
  let ?s0 = "current_state (TicTacToeGame_init True)"
  have r0: "reachable ?s0" by (rule reachable_init)
  have r1: "reachable (make_move ?s0 1)"
    by (rule reachable_move[OF r0]) (simp add: is_valid_move_def state_eval)
  have r2: "reachable (make_move (make_move ?s0 1) 4)"
    by (rule reachable_move[OF r1]) (simp add: is_valid_move_def state_eval)
  have r3: "reachable (make_move (make_move (make_move ?s0 1) 4) 2)"
    by (rule reachable_move[OF r2]) (simp add: is_valid_move_def state_eval)
  have r4: "reachable (make_move (make_move (make_move (make_move ?s0 1) 4) 2) 5)"
    by (rule reachable_move[OF r3]) (simp add: is_valid_move_def state_eval)
  have "make_move (make_move (make_move (make_move ?s0 1) 4) 2) 5 = scenario ''X'' ''O''"
    by (simp add: state_eval)
  with r4 show ?thesis by simp
qed


lemma score_val_step_min:
  assumes "get_possible_moves s \<noteq> []"
  shows "score_val s = - Min ((\<lambda>m. score_val (make_move s m)) ` set (get_possible_moves s))"
proof -
  let ?S = "(\<lambda>m. score_val (make_move s m)) ` set (get_possible_moves s)"
  have "finite ?S" "?S \<noteq> {}" using assms by auto
  then have "- Min ?S = Max (uminus ` ?S)" by (rule minus_Min_eq_Max)
  also have "uminus ` ?S = (\<lambda>m. - score_val (make_move s m)) ` set (get_possible_moves s)"
    by (simp add: image_image)
  finally show ?thesis using score_val_step[OF assms] by simp
qed

text \<open>
  Claim C2 (as stated, refuted). The scenario state is reachable and has legal moves; its
  score is \<open>1\<close>, while \<open>- 1\<close> times the maximum of the scores of its successors is
  \<open>- 1\<close>: the move to cell 7 leads to a state that the opponent wins, of score \<open>1\<close>.
\<close>

theorem score_not_negated_max_counterexample:
  "reachable (scenario ''X'' ''O'') \<and>
   get_possible_moves (scenario ''X'' ''O'') \<noteq> [] \<and>
   score_state_rec (scenario ''X'' ''O'') = Inr 1 \<and>
   - 1 * Max (set (map score_val (map (make_move (scenario ''X'' ''O''))
                                      (get_possible_moves (scenario ''X'' ''O''))))) = - 1"
proof -
  let ?s = "scenario ''X'' ''O''"
  let ?C = "set (map score_val (map (make_move ?s) (get_possible_moves ?s)))"
  have "score_val (make_move ?s 7) \<in> ?C" by (simp add: scenario_moves)
  then have one: "1 \<in> ?C" by (simp only: scenario_child_7)
  have "Max ?C = 1"
  proof (rule Max_eqI)
    show "finite ?C" by simp
    show "\<And>y. y \<in> ?C \<Longrightarrow> y \<le> 1" using score_val_le_1 by auto
    show "1 \<in> ?C" by (rule one)
  qed
  then show ?thesis
    using scenario_reachable scenario_score score_state_rec_val[of ?s]
    by (simp add: scenario_moves)
qed

text \<open>
  Claim C2 (amended). For every state, reachable or not, the score is \<open>- 1\<close>, \<open>0\<close> or
  \<open>1\<close>, and on a state with legal moves it is \<open>- 1\<close> times the minimum (not the
  maximum) of the scores of the successor states.
\<close>

theorem score_range_and_negated_min:
  "score_state_rec s = Inr (score_val s) \<and>
   score_val s \<in> {- 1, 0, 1} \<and>
   (get_possible_moves s \<noteq> [] \<longrightarrow>
      score_val s = - 1 * Min ((\<lambda>m. score_val (make_move s m)) ` set (get_possible_moves s)))"
  using score_state_rec_val[of s] score_val_range[of s] score_val_step_min[of s] by simp

theorem score_range_and_negated_min_witness:
  "reachable (scenario ''X'' ''O'') \<and>
   get_possible_moves (scenario ''X'' ''O'') \<noteq> [] \<and>
   score_val (scenario ''X'' ''O'') =
     - 1 * Min ((\<lambda>m. score_val (make_move (scenario ''X'' ''O'') m))
                 ` set (get_possible_moves (scenario ''X'' ''O'')))"
proof -
  have ne: "get_possible_moves (scenario ''X'' ''O'') \<noteq> []"
    by (simp add: scenario_moves)
  with score_range_and_negated_min[of "scenario ''X'' ''O''"] scenario_reachable
  show ?thesis by blast
qed

subsection \<open>The best moves\<close>

lemma best_moves_terminal:
  "get_possible_moves s = [] \<Longrightarrow> get_best_moves_rec s = Inl ValueError"
  by (simp add: get_best_moves_rec_def)

text \<open>
  Claim C10. On a state without legal moves \<^verbatim>\<open>get_best_moves_rec\<close> raises
  \<^verbatim>\<open>ValueError\<close>, from \<^verbatim>\<open>max\<close> of the empty dictionary, and so does
  \<^verbatim>\<open>recursive_minimax\<close> on a game whose current state is such a state.
\<close>

theorem best_moves_undefined_on_terminal:
  "get_possible_moves (current_state game) = [] \<Longrightarrow>
   get_best_moves_rec (current_state game) = Inl ValueError \<and>
   recursive_minimax game = {Inl ValueError}"
  by (simp add: recursive_minimax_def best_moves_terminal)

theorem best_moves_undefined_on_terminal_witness:
  "get_possible_moves (current_state (game_view (make_move (scenario ''X'' ''O'') 3))) = [] \<and>
   get_best_moves_rec (current_state (game_view (make_move (scenario ''X'' ''O'') 3)))
     = Inl ValueError \<and>
   recursive_minimax (game_view (make_move (scenario ''X'' ''O'') 3)) = {Inl ValueError}"
proof -
  have "get_possible_moves (current_state (game_view (make_move (scenario ''X'' ''O'') 3))) = []"
    by (simp add: game_view_def scenario_after_3)
  with best_moves_undefined_on_terminal[of "game_view (make_move (scenario ''X'' ''O'') 3)"]
  show ?thesis by blast
qed

subsection \<open>The invariant of the reachable states\<close>

lemma make_move_fields:
  "map_of (cells_owned (make_move s m)) = (map_of (cells_owned s))(m \<mapsto> PStr (current_player s))"
  "cells_unowned (make_move s m) = filter (\<lambda>cell. cell \<noteq> m) (cells_unowned s)"
  "current_player (make_move s m) = (if current_player s = ''X'' then ''O'' else ''X'')"
  by (simp_all add: make_move_def update_conv' map_of_copy_dict)

lemma make_move_keys:
  assumes "distinct (map fst (cells_owned s))" and "m \<in> fst ` set (cells_owned s)"
  shows "map fst (cells_owned (make_move s m)) = map fst (cells_owned s)"
  using assms by (simp add: make_move_def copy_dict_distinct update_keys)

lemma possible_moves_subset: "set (get_possible_moves s) \<subseteq> set (cells_unowned s)"
  by (simp add: get_possible_moves_eq)

lemma well_formed_init: "well_formed (current_state (TicTacToeGame_init xf))"
  by (simp add: well_formed_def cell_ids_def TicTacToeGame_init_def)

lemma well_formed_make_move:
  assumes wf: "well_formed s" and m: "m \<in> set (cells_unowned s)"
  shows "well_formed (make_move s m)"
proof -
  let ?co = "cells_owned s"
  let ?p = "current_player s"
  from wf have keys: "map fst ?co = cell_ids"
    and vals: "list_all (\<lambda>c. map_of ?co c = Some (PInt c) \<or> map_of ?co c = Some (PStr ''X'') \<or>
                     map_of ?co c = Some (PStr ''O'')) cell_ids"
    and un: "cells_unowned s = filter (\<lambda>c. map_of ?co c = Some (PInt c)) cell_ids"
    and pl: "?p = ''X'' \<or> ?p = ''O''"
    by (simp_all add: well_formed_def)
  from m un have mid: "m \<in> set cell_ids" by simp
  have dist: "distinct (map fst ?co)" by (simp add: keys cell_ids_def)
  have mkey: "m \<in> fst ` set ?co" using mid keys by (metis list.set_map)
  have k: "map fst (cells_owned (make_move s m)) = cell_ids"
    using make_move_keys[OF dist mkey] keys by simp
  have v: "list_all (\<lambda>c. map_of (cells_owned (make_move s m)) c = Some (PInt c) \<or>
                     map_of (cells_owned (make_move s m)) c = Some (PStr ''X'') \<or>
                     map_of (cells_owned (make_move s m)) c = Some (PStr ''O'')) cell_ids"
    using vals pl by (auto simp: make_move_fields list_all_iff)
  have u: "cells_unowned (make_move s m) =
           filter (\<lambda>c. map_of (cells_owned (make_move s m)) c = Some (PInt c)) cell_ids"
    by (auto simp: make_move_fields un intro: filter_cong)
  have p: "current_player (make_move s m) = ''X'' \<or> current_player (make_move s m) = ''O''"
    by (simp add: make_move_fields)
  from k v u p show ?thesis unfolding well_formed_def by blast
qed

lemma reachable_well_formed: "reachable s \<Longrightarrow> well_formed s"
proof (induction rule: reachable.induct)
  case (reachable_init xf)
  show ?case by (rule well_formed_init)
next
  case (reachable_move s m)
  from reachable_move.hyps(2) have "m \<in> set (cells_unowned s)"
    using possible_moves_subset[of s] by (auto simp: is_valid_move_def)
  with reachable_move.IH show ?case by (rule well_formed_make_move)
qed

lemma owned_cells_iff:
  "c \<in> owned_cells s \<longleftrightarrow>
     map_of (cells_owned s) c = Some (PStr ''X'') \<or> map_of (cells_owned s) c = Some (PStr ''O'')"
  by (simp add: owned_cells_def in_owned_by)

lemma well_formed_unowned:
  assumes "well_formed s"
  shows "cells_unowned s = filter (\<lambda>c. c \<notin> owned_cells s) cell_ids"
proof -
  from assms have vals: "\<forall>c \<in> set cell_ids. map_of (cells_owned s) c = Some (PInt c) \<or>
      map_of (cells_owned s) c = Some (PStr ''X'') \<or> map_of (cells_owned s) c = Some (PStr ''O'')"
    and un: "cells_unowned s = filter (\<lambda>c. map_of (cells_owned s) c = Some (PInt c)) cell_ids"
    by (simp_all add: well_formed_def list_all_iff)
  show ?thesis unfolding un
    by (rule filter_cong) (use vals in \<open>auto simp: owned_cells_iff\<close>)
qed

lemma well_formed_owned_subset:
  assumes "well_formed s"
  shows "owned_cells s \<subseteq> set cell_ids"
proof
  fix c assume "c \<in> owned_cells s"
  then have "map_of (cells_owned s) c \<noteq> None" by (auto simp: owned_cells_iff)
  then have "c \<in> fst ` set (cells_owned s)" by (simp add: map_of_eq_None_iff)
  then have "c \<in> set (map fst (cells_owned s))" by simp
  with assms show "c \<in> set cell_ids" by (simp add: well_formed_def)
qed

lemma well_formed_partition:
  assumes "well_formed s"
  shows "set (cells_unowned s) \<union> owned_cells s = {1, 2, 3, 4, 5, 6, 7, 8, 9}"
    and "set (cells_unowned s) \<inter> owned_cells s = {}"
proof -
  have ids: "set cell_ids = {1, 2, 3, 4, 5, 6, 7, 8, 9}" by (simp add: cell_ids_def)
  show "set (cells_unowned s) \<union> owned_cells s = {1, 2, 3, 4, 5, 6, 7, 8, 9}"
    using well_formed_owned_subset[OF assms] unfolding well_formed_unowned[OF assms] ids[symmetric]
    by auto
  show "set (cells_unowned s) \<inter> owned_cells s = {}"
    unfolding well_formed_unowned[OF assms] by auto
qed

lemma well_formed_make_move_owned:
  assumes "well_formed s"
  shows "owned_cells (make_move s m) = insert m (owned_cells s)"
proof -
  from assms have "current_player s = ''X'' \<or> current_player s = ''O''"
    by (simp add: well_formed_def)
  then show ?thesis
    by (auto simp: owned_cells_iff make_move_fields split: if_splits)
qed

subsection \<open>Legal moves and termination\<close>

lemma has_line_iff:
  "has_line owned p \<longleftrightarrow>
     (\<exists>combo \<in> set winning_combo. \<forall>cell \<in> set combo. map_of owned cell = Some (PStr p))"
  by (simp add: has_line_def list_ex_iff list_all_iff)

lemma partition_empty: "A \<union> B = C \<Longrightarrow> A \<inter> B = {} \<Longrightarrow> (A = {}) = (B = C)"
  by blast

lemma won_state:
  "get_possible_moves (make_move (scenario ''X'' ''O'') 3) = []"
  "cells_unowned (make_move (scenario ''X'' ''O'') 3) = [6, 7, 8, 9]"
  "is_winner (game_view (make_move (scenario ''X'' ''O'') 3)) ''X''"
  "is_over (game_view (make_move (scenario ''X'' ''O'') 3))"
  by (simp_all add: is_over_iff is_winner_iff game_view_def state_eval)

lemma won_state_reachable: "reachable (make_move (scenario ''X'' ''O'') 3)"
  by (rule reachable_move[OF scenario_reachable]) (simp add: is_valid_move_def scenario_moves)

text \<open>
  Claim C5. For every state, \<^verbatim>\<open>get_possible_moves\<close> returns the list of unowned cells,
  unchanged, when the game is not over, and the empty list exactly when \<^verbatim>\<open>is_over\<close>
  holds of the game built around the state; the game is over exactly when no cell is
  unowned or \<open>X\<close> or \<open>O\<close> owns every cell of a winning line, whether or not unowned
  cells remain. On a reachable state the unowned cells are the cells of 1 to 9 that no
  player owns, in increasing order, so the list is empty exactly when all cells are owned.
\<close>

theorem possible_moves_characterisation:
  "(is_over (game_view s) \<longleftrightarrow>
      cells_unowned s = [] \<or> is_winner (game_view s) ''X'' \<or> is_winner (game_view s) ''O'') \<and>
   (is_winner (game_view s) p \<longleftrightarrow>
      (\<exists>combo \<in> set winning_combo. \<forall>cell \<in> set combo.
         map_of (cells_owned s) cell = Some (PStr p))) \<and>
   (get_possible_moves s = [] \<longleftrightarrow> is_over (game_view s)) \<and>
   (\<not> is_over (game_view s) \<longrightarrow> get_possible_moves s = cells_unowned s) \<and>
   (reachable s \<longrightarrow>
      cells_unowned s = filter (\<lambda>c. c \<notin> owned_cells s) [1, 2, 3, 4, 5, 6, 7, 8, 9] \<and>
      (cells_unowned s = [] \<longleftrightarrow> owned_cells s = {1, 2, 3, 4, 5, 6, 7, 8, 9}))"
proof (intro conjI impI)
  show "is_over (game_view s) \<longleftrightarrow>
      cells_unowned s = [] \<or> is_winner (game_view s) ''X'' \<or> is_winner (game_view s) ''O''"
    by (simp add: is_over_iff is_winner_iff game_view_def)
  show "is_winner (game_view s) p \<longleftrightarrow>
      (\<exists>combo \<in> set winning_combo. \<forall>cell \<in> set combo.
         map_of (cells_owned s) cell = Some (PStr p))"
    by (simp add: is_winner_iff has_line_iff game_view_def)
  show "get_possible_moves s = [] \<longleftrightarrow> is_over (game_view s)"
    by (auto simp: get_possible_moves_eq is_over_iff game_view_def)
next
  assume "\<not> is_over (game_view s)"
  then show "get_possible_moves s = cells_unowned s"
    by (simp add: get_possible_moves_def game_view_def)
next
  assume "reachable s"
  then have wf: "well_formed s" by (rule reachable_well_formed)
  show "cells_unowned s = filter (\<lambda>c. c \<notin> owned_cells s) [1, 2, 3, 4, 5, 6, 7, 8, 9]"
    using well_formed_unowned[OF wf] by (simp add: cell_ids_def)
  have "set (cells_unowned s) = {} \<longleftrightarrow> owned_cells s = {1, 2, 3, 4, 5, 6, 7, 8, 9}"
    by (rule partition_empty[OF well_formed_partition[OF wf]])
  then show "cells_unowned s = [] \<longleftrightarrow> owned_cells s = {1, 2, 3, 4, 5, 6, 7, 8, 9}"
    by simp
qed

theorem possible_moves_characterisation_witness:
  "reachable (scenario ''X'' ''O'') \<and>
   \<not> is_over (game_view (scenario ''X'' ''O'')) \<and>
   get_possible_moves (scenario ''X'' ''O'') = [3, 6, 7, 8, 9] \<and>
   cells_unowned (scenario ''X'' ''O'') =
     filter (\<lambda>c. c \<notin> owned_cells (scenario ''X'' ''O'')) [1, 2, 3, 4, 5, 6, 7, 8, 9] \<and>
   reachable (make_move (scenario ''X'' ''O'') 3) \<and>
   is_winner (game_view (make_move (scenario ''X'' ''O'') 3)) ''X'' \<and>
   list_ex (\<lambda>combo. list_all (\<lambda>cell.
       map_of (cells_owned (make_move (scenario ''X'' ''O'') 3)) cell = Some (PStr ''X'')) combo)
     winning_combo \<and>
   cells_unowned (make_move (scenario ''X'' ''O'') 3) = [6, 7, 8, 9] \<and>
   is_over (game_view (make_move (scenario ''X'' ''O'') 3)) \<and>
   get_possible_moves (make_move (scenario ''X'' ''O'') 3) = []"
proof -
  note A = possible_moves_characterisation[of "scenario ''X'' ''O''" "''X''"]
  note B = possible_moves_characterisation[of "make_move (scenario ''X'' ''O'') 3" "''X''"]
  have "get_possible_moves (scenario ''X'' ''O'') \<noteq> []"
    by (simp add: scenario_moves)
  then have n: "\<not> is_over (game_view (scenario ''X'' ''O''))"
    using A by blast
  have u: "cells_unowned (scenario ''X'' ''O'') =
     filter (\<lambda>c. c \<notin> owned_cells (scenario ''X'' ''O'')) [1, 2, 3, 4, 5, 6, 7, 8, 9]"
    using A scenario_reachable by blast
  have w: "is_winner (game_view (make_move (scenario ''X'' ''O'') 3)) ''X''"
    by (rule won_state)
  then have l: "list_ex (\<lambda>combo. list_all (\<lambda>cell.
       map_of (cells_owned (make_move (scenario ''X'' ''O'') 3)) cell = Some (PStr ''X'')) combo)
     winning_combo"
    using B by (simp add: list_ex_iff list_all_iff)
  have o: "is_over (game_view (make_move (scenario ''X'' ''O'') 3))"
    using B w by blast
  then have e: "get_possible_moves (make_move (scenario ''X'' ''O'') 3) = []"
    using B by blast
  show ?thesis
    using n u w l o e scenario_reachable won_state_reachable scenario_moves won_state(2) by blast
qed

subsection \<open>The partition of the cells\<close>

text \<open>
  Claim C6 (as stated, refuted). After the moves 1, 4, 2, 5, 3 the state is reachable,
  \<open>X\<close> owns the top row, and \<^verbatim>\<open>get_possible_moves\<close> is empty although the cells 6 to
  9 are not owned: the possible moves and the owned cells do not cover the nine cells.
\<close>

theorem possible_moves_partition_counterexample:
  "reachable (make_move (scenario ''X'' ''O'') 3) \<and>
   set (get_possible_moves (make_move (scenario ''X'' ''O'') 3))
     \<union> owned_cells (make_move (scenario ''X'' ''O'') 3) = {1, 2, 3, 4, 5} \<and>
   set (get_possible_moves (make_move (scenario ''X'' ''O'') 3))
     \<union> owned_cells (make_move (scenario ''X'' ''O'') 3) \<noteq> {1, 2, 3, 4, 5, 6, 7, 8, 9}"
proof -
  have "owned_cells (make_move (scenario ''X'' ''O'') 3) = {1, 2, 3, 4, 5}"
    by (auto simp: owned_cells_def owned_by_def state_eval)
  then have u: "set (get_possible_moves (make_move (scenario ''X'' ''O'') 3))
     \<union> owned_cells (make_move (scenario ''X'' ''O'') 3) = {1, 2, 3, 4, 5}"
    by (simp add: won_state)
  have ne: "{1, 2, 3, 4, 5} \<noteq> {1, 2, 3, 4, 5, 6, 7, 8, 9 :: int}"
  proof
    assume "{1, 2, 3, 4, 5} = {1, 2, 3, 4, 5, 6, 7, 8, 9 :: int}"
    then have "(6::int) \<in> {1, 2, 3, 4, 5}" by simp
    then show False by simp
  qed
  show ?thesis
    using won_state_reachable u ne by simp
qed

text \<open>
  Claim C6 (amended). For every state reachable from an initial state by legal moves, the
  list of unowned cells (which is what \<^verbatim>\<open>get_possible_moves\<close> returns as long as the game
  is not over) and the set of owned cells are disjoint and together are the cells 1 to 9;
  a legal move takes its cell from the unowned cells and adds it to the owned ones, and
  leads to a reachable state, where the partition holds again.
\<close>

theorem cells_partition:
  "reachable s \<Longrightarrow>
     set (cells_unowned s) \<union> owned_cells s = {1, 2, 3, 4, 5, 6, 7, 8, 9} \<and>
     set (cells_unowned s) \<inter> owned_cells s = {} \<and>
     (get_possible_moves s \<noteq> [] \<longrightarrow> get_possible_moves s = cells_unowned s) \<and>
     (is_valid_move s (PInt m) \<longrightarrow>
        reachable (make_move s m) \<and>
        set (cells_unowned (make_move s m)) = set (cells_unowned s) - {m} \<and>
        owned_cells (make_move s m) = insert m (owned_cells s))"
proof -
  assume r: "reachable s"
  then have wf: "well_formed s" by (rule reachable_well_formed)
  have "is_valid_move s (PInt m) \<longrightarrow> reachable (make_move s m)"
    using r by (auto intro: reachable_move)
  moreover have "set (cells_unowned (make_move s m)) = set (cells_unowned s) - {m}"
    by (auto simp: make_move_fields)
  moreover have "get_possible_moves s \<noteq> [] \<longrightarrow> get_possible_moves s = cells_unowned s"
    by (simp add: get_possible_moves_eq)
  ultimately show ?thesis
    using well_formed_partition[OF wf] well_formed_make_move_owned[OF wf, of m] by blast
qed

theorem cells_partition_witness:
  "reachable (scenario ''X'' ''O'') \<and> is_valid_move (scenario ''X'' ''O'') (PInt 3) \<and>
   set (cells_unowned (scenario ''X'' ''O'')) \<union> owned_cells (scenario ''X'' ''O'')
     = {1, 2, 3, 4, 5, 6, 7, 8, 9} \<and>
   set (cells_unowned (scenario ''X'' ''O'')) \<inter> owned_cells (scenario ''X'' ''O'') = {} \<and>
   get_possible_moves (scenario ''X'' ''O'') \<noteq> [] \<and>
   get_possible_moves (scenario ''X'' ''O'') = cells_unowned (scenario ''X'' ''O'') \<and>
   reachable (make_move (scenario ''X'' ''O'') 3) \<and>
   owned_cells (make_move (scenario ''X'' ''O'') 3) = insert 3 (owned_cells (scenario ''X'' ''O''))"
proof -
  have v: "is_valid_move (scenario ''X'' ''O'') (PInt 3)"
    by (simp add: is_valid_move_def scenario_moves)
  have ne: "get_possible_moves (scenario ''X'' ''O'') \<noteq> []"
    by (simp add: scenario_moves)
  show ?thesis
    using cells_partition[OF scenario_reachable, of 3] v ne scenario_reachable by blast
qed

subsection \<open>Moves that are not legal\<close>

lemma cell_ids_range: "m \<in> set cell_ids \<longleftrightarrow> 1 \<le> m \<and> m \<le> 9"
proof -
  have "(m = 1 \<or> m = 2 \<or> m = 3 \<or> m = 4 \<or> m = 5 \<or> m = 6 \<or> m = 7 \<or> m = 8 \<or> m = 9)
        \<longleftrightarrow> 1 \<le> m \<and> m \<le> 9"
    by arith
  then show ?thesis by (simp add: cell_ids_def)
qed

lemma valid_move_reachable:
  assumes "reachable s"
  shows "is_valid_move s (PInt m) \<longleftrightarrow>
           \<not> is_over (game_view s) \<and> 1 \<le> m \<and> m \<le> 9 \<and> m \<notin> owned_cells s"
proof -
  have wf: "well_formed s" using assms by (rule reachable_well_formed)
  have "is_valid_move s (PInt m) \<longleftrightarrow> \<not> is_over (game_view s) \<and> m \<in> set (cells_unowned s)"
    by (simp add: is_valid_move_def get_possible_moves_def game_view_def)
  also have "m \<in> set (cells_unowned s) \<longleftrightarrow> m \<in> set cell_ids \<and> m \<notin> owned_cells s"
    unfolding well_formed_unowned[OF wf] by simp
  finally show ?thesis by (simp add: cell_ids_range)
qed

text \<open>
  Claim C7 (as stated, refuted). \<^verbatim>\<open>make_move\<close> has no check and raises nothing. After
  \<open>X\<close> has taken cell 1, the move to the owned cell 1 returns a state in which \<open>O\<close>
  owns cell 1, and the move to the cell 10, out of range, returns a state whose dictionary
  has the new key 10; on the state where \<open>X\<close> has won with the top row, the move to cell
  6 returns a state as well. In the three cases \<^verbatim>\<open>is_valid_move\<close> rejects the move.
\<close>

theorem make_move_no_error_counterexample:
  "\<not> is_valid_move (make_move (current_state (TicTacToeGame_init True)) 1) (PInt 1) \<and>
   make_move (make_move (current_state (TicTacToeGame_init True)) 1) 1 =
     \<lparr> cells_owned = [(1, PStr ''O''), (2, PInt 2), (3, PInt 3), (4, PInt 4), (5, PInt 5),
                      (6, PInt 6), (7, PInt 7), (8, PInt 8), (9, PInt 9)],
       cells_unowned = [2, 3, 4, 5, 6, 7, 8, 9],
       current_player = ''X'' \<rparr> \<and>
   \<not> is_valid_move (make_move (current_state (TicTacToeGame_init True)) 1) (PInt 10) \<and>
   make_move (make_move (current_state (TicTacToeGame_init True)) 1) 10 =
     \<lparr> cells_owned = [(1, PStr ''X''), (2, PInt 2), (3, PInt 3), (4, PInt 4), (5, PInt 5),
                      (6, PInt 6), (7, PInt 7), (8, PInt 8), (9, PInt 9), (10, PStr ''O'')],
       cells_unowned = [2, 3, 4, 5, 6, 7, 8, 9],
       current_player = ''X'' \<rparr> \<and>
   get_possible_moves (make_move (scenario ''X'' ''O'') 3) = [] \<and>
   \<not> is_valid_move (make_move (scenario ''X'' ''O'') 3) (PInt 6) \<and>
   make_move (make_move (scenario ''X'' ''O'') 3) 6 =
     \<lparr> cells_owned = [(1, PStr ''X''), (2, PStr ''X''), (3, PStr ''X''), (4, PStr ''O''),
                      (5, PStr ''O''), (6, PStr ''O''), (7, PInt 7), (8, PInt 8), (9, PInt 9)],
       cells_unowned = [7, 8, 9],
       current_player = ''X'' \<rparr>"
  by (simp add: is_valid_move_def state_eval)

text \<open>
  Claim C7 (amended). \<^verbatim>\<open>make_move\<close> raises no error on any state and any integer cell:
  it always returns the state in which the cell belongs to the player to move, is removed
  from the unowned cells, and the turn has passed to the other player. The validity of a
  move is what \<^verbatim>\<open>is_valid_move\<close> reports, that is membership in the possible moves; on a
  reachable state it rejects exactly the cells out of 1 to 9, the owned cells, and every
  cell once the game is over.
\<close>

theorem make_move_total:
  "map_of (cells_owned (make_move s m)) = (map_of (cells_owned s))(m \<mapsto> PStr (current_player s)) \<and>
   cells_unowned (make_move s m) = filter (\<lambda>cell. cell \<noteq> m) (cells_unowned s) \<and>
   current_player (make_move s m) = (if current_player s = ''X'' then ''O'' else ''X'') \<and>
   (is_valid_move s (PInt m) \<longleftrightarrow> m \<in> set (get_possible_moves s)) \<and>
   (reachable s \<longrightarrow>
      (is_valid_move s (PInt m) \<longleftrightarrow>
         \<not> is_over (game_view s) \<and> 1 \<le> m \<and> m \<le> 9 \<and> m \<notin> owned_cells s))"
  using make_move_fields[of s m] valid_move_reachable[of s m]
  by (simp add: is_valid_move_def)

theorem make_move_total_witness:
  "reachable (scenario ''X'' ''O'') \<and>
   \<not> is_over (game_view (scenario ''X'' ''O'')) \<and>
   is_valid_move (scenario ''X'' ''O'') (PInt 3) \<and>
   \<not> is_valid_move (scenario ''X'' ''O'') (PInt 10) \<and>
   cells_unowned (make_move (scenario ''X'' ''O'') 10) = [3, 6, 7, 8, 9] \<and>
   current_player (make_move (scenario ''X'' ''O'') 10) = ''O''"
proof -
  note A = make_move_total[of "scenario ''X'' ''O''" 3]
  note B = make_move_total[of "scenario ''X'' ''O''" 10]
  have v: "is_valid_move (scenario ''X'' ''O'') (PInt 3)"
    using A by (simp add: scenario_moves)
  then have n: "\<not> is_over (game_view (scenario ''X'' ''O''))"
    using A scenario_reachable by blast
  have i: "\<not> is_valid_move (scenario ''X'' ''O'') (PInt 10)"
    using B scenario_reachable by (simp add: scenario_moves)
  have u: "cells_unowned (make_move (scenario ''X'' ''O'') 10) = [3, 6, 7, 8, 9]"
    using B by (simp add: scenario_def)
  have p: "current_player (make_move (scenario ''X'' ''O'') 10) = ''O''"
    using B by (simp add: scenario_def)
  show ?thesis using v n i u p scenario_reachable by blast
qed

end
